theory Spec2Isabelle
  imports Complex_Main
begin

section \<open>JavaScript values\<close>

text \<open>
  The store holds a value of a caller-defined type \<open>T\<close>. Values are modelled by the
  JavaScript kinds the code distinguishes: primitives, references to heap objects, and
  references to functions. \<open>Fun f\<close> is a function that is an instance of \<open>Function\<close>, as
  every function the program itself writes is. \<open>ForeignFun f\<close> is a function that is not:
  one that comes from another realm (the global of another frame), or one whose prototype
  chain has been cut. Both can be called.

  A number is a double. Only identity of numbers matters to this code, so a number is its
  mathematical value, with \<open>NaN\<close>, \<open>-0\<close> and the infinities kept apart; \<open>Fin 0\<close> is \<open>+0\<close>.
\<close>

datatype number = NaN | NegZero | PosInf | NegInf | Fin rat

type_synonym addr = nat
type_synonym fid = nat

datatype val =
    Undefined
  | Null
  | Bool bool
  | Num number
  | Str string
  | Ref addr
  | Fun fid
  | ForeignFun fid

text \<open>Whether a value can be called (the IsCallable test of ECMAScript).\<close>

fun is_callable :: "val \<Rightarrow> bool" where
  "is_callable (Fun f) = True"
| "is_callable (ForeignFun f) = True"
| "is_callable v = False"

text \<open>\<open>typeof x\<close>.\<close>

fun typeof_js :: "val \<Rightarrow> string" where
  "typeof_js Undefined = ''undefined''"
| "typeof_js Null = ''object''"
| "typeof_js (Bool b) = ''boolean''"
| "typeof_js (Num n) = ''number''"
| "typeof_js (Str s) = ''string''"
| "typeof_js (Ref a) = ''object''"
| "typeof_js (Fun f) = ''function''"
| "typeof_js (ForeignFun f) = ''function''"

text \<open>
  \<open>Object.is(a, b)\<close> is the SameValue comparison: \<open>NaN\<close> is \<open>NaN\<close>, \<open>+0\<close> is not \<open>-0\<close>,
  strings compare by content, objects and functions by reference. On the datatype above
  this is equality of the representations.
\<close>

definition object_is :: "val \<Rightarrow> val \<Rightarrow> bool" where
  "object_is a b = (a = b)"

text \<open>\<open>a === b\<close>: \<open>NaN\<close> differs from itself, and the two zeros are equal.\<close>

fun strict_equals :: "val \<Rightarrow> val \<Rightarrow> bool" where
  "strict_equals (Num x) (Num y) =
     (if x = NaN \<or> y = NaN then False
      else if (x = NegZero \<or> x = Fin 0) \<and> (y = NegZero \<or> y = Fin 0) then True
      else x = y)"
| "strict_equals a b = (a = b)"

text \<open>SameValueZero, the comparison of \<open>Map\<close> keys and \<open>Set\<close> members.\<close>

fun same_value_zero :: "val \<Rightarrow> val \<Rightarrow> bool" where
  "same_value_zero (Num x) (Num y) =
     (if (x = NegZero \<or> x = Fin 0) \<and> (y = NegZero \<or> y = Fin 0) then True else x = y)"
| "same_value_zero a b = (a = b)"

text \<open>ToBoolean, applied to the condition of \<open>c ? x : y\<close>.\<close>

fun truthy :: "val \<Rightarrow> bool" where
  "truthy Undefined = False"
| "truthy Null = False"
| "truthy (Bool b) = b"
| "truthy (Num n) = (n \<noteq> NaN \<and> n \<noteq> NegZero \<and> n \<noteq> Fin 0)"
| "truthy (Str s) = (s \<noteq> [])"
| "truthy (Ref a) = True"
| "truthy (Fun f) = True"
| "truthy (ForeignFun f) = True"

section \<open>Heap objects\<close>

text \<open>
  An object has own enumerable string-keyed properties, in creation order, and is an
  ordinary object, a \<open>Map\<close> (its entries in insertion order) or a \<open>Set\<close> (its members in
  insertion order). The heap is the list of allocated objects; an address is an index.
\<close>

datatype kind = Ordinary | MapData "(val \<times> val) list" | SetData "val list"

datatype obj = Obj kind "(string \<times> val) list"

type_synonym heap = "obj list"

definition lookup :: "heap \<Rightarrow> addr \<Rightarrow> obj option" where
  "lookup h a = (if a < length h then Some (h ! a) else None)"

text \<open>\<open>Object.keys(o)\<close>.\<close>

definition object_keys :: "(string \<times> val) list \<Rightarrow> string list" where
  "object_keys ps = map fst ps"

text \<open>\<open>Object.prototype.hasOwnProperty.call(o, k)\<close>.\<close>

definition has_own_property :: "(string \<times> val) list \<Rightarrow> string \<Rightarrow> bool" where
  "has_own_property ps k = (k \<in> set (map fst ps))"

text \<open>\<open>o[k]\<close> for an own property; \<open>undefined\<close> when there is none.\<close>

definition get_prop :: "(string \<times> val) list \<Rightarrow> string \<Rightarrow> val" where
  "get_prop ps k = (case map_of ps k of Some v \<Rightarrow> v | None \<Rightarrow> Undefined)"

text \<open>\<open>m.get(k)\<close> of a \<open>Map\<close>.\<close>

fun map_get :: "(val \<times> val) list \<Rightarrow> val \<Rightarrow> val" where
  "map_get [] k = Undefined"
| "map_get ((k', v) # es) k = (if same_value_zero k' k then v else map_get es k)"

text \<open>\<open>s.has(v)\<close> of a \<open>Set\<close>.\<close>

fun set_has :: "val list \<Rightarrow> val \<Rightarrow> bool" where
  "set_has [] v = False"
| "set_has (x # xs) v = (same_value_zero x v \<or> set_has xs v)"

section \<open>shallowEqual (index.ts, lines 148 to 196)\<close>

text \<open>The three loops; each returns false at the first entry that differs.\<close>

fun map_loop :: "(val \<times> val) list \<Rightarrow> (val \<times> val) list \<Rightarrow> bool" where
  "map_loop [] eb = True"
| "map_loop ((key, value) # ea) eb =
     (if \<not> object_is value (map_get eb key) then False else map_loop ea eb)"

fun set_loop :: "val list \<Rightarrow> val list \<Rightarrow> bool" where
  "set_loop [] sb = True"
| "set_loop (value # sa) sb = (if \<not> set_has sb value then False else set_loop sa sb)"

fun keys_loop :: "string list \<Rightarrow> (string \<times> val) list \<Rightarrow> (string \<times> val) list \<Rightarrow> bool" where
  "keys_loop [] pa pb = True"
| "keys_loop (k # ks) pa pb =
     (if \<not> has_own_property pb k \<or> \<not> object_is (get_prop pa k) (get_prop pb k) then False
      else keys_loop ks pa pb)"

text \<open>The part of \<open>shallowEqual\<close> after both arguments are known to be objects.\<close>

fun shallow_objects :: "obj \<Rightarrow> obj \<Rightarrow> bool" where
  "shallow_objects (Obj (MapData ea) pa) (Obj (MapData eb) pb) =
     (if length ea \<noteq> length eb then False else map_loop ea eb)"
| "shallow_objects (Obj (SetData sa) pa) (Obj (SetData sb) pb) =
     (if length sa \<noteq> length sb then False else set_loop sa sb)"
| "shallow_objects (Obj ka pa) (Obj kb pb) =
     (let keysA = object_keys pa in
      if length keysA \<noteq> length (object_keys pb) then False
      else keys_loop keysA pa pb)"

text \<open>
  \<open>shallowEqual(a, b)\<close> in a heap. The result is \<open>None\<close> only when an argument is a
  reference to an address the heap does not hold, which no JavaScript value is.
\<close>

definition shallowEqual :: "heap \<Rightarrow> val \<Rightarrow> val \<Rightarrow> bool option" where
  "shallowEqual h a b =
     (if object_is a b then Some True
      else if typeof_js a \<noteq> ''object'' \<or> a = Null \<or> typeof_js b \<noteq> ''object'' \<or> b = Null
        then Some False
      else (case (a, b) of
              (Ref p, Ref q) \<Rightarrow>
                (case (lookup h p, lookup h q) of
                   (Some oa, Some ob) \<Rightarrow> Some (shallow_objects oa ob)
                 | _ \<Rightarrow> None)
            | _ \<Rightarrow> None))"

section \<open>Calls, completions and the store\<close>

text \<open>
  A call completes normally with a value or abruptly with the thrown value. \<open>Exhausted\<close>
  is the answer of the bounded evaluator below when its budget of listener invocations is
  used up: the JavaScript call has not returned by then.
\<close>

datatype completion = Normal val | Abrupt val | Exhausted

text \<open>
  Events observed by the listeners, kept as a trace: \<open>Invoked l a\<close> when listener \<open>l\<close>
  is called with argument \<open>a\<close>, \<open>Observed l v\<close> when a \<open>get()\<close> in the body of \<open>l\<close>
  returns \<open>v\<close>.
\<close>

datatype event = Invoked fid val | Observed fid val

text \<open>
  What the body of a listener does to the store it closes over: read it, write it, register
  or remove a listener, throw.
\<close>

datatype action = DoGet | DoSet val | DoSubscribe fid | DoUnsubscribe fid | DoThrow val

text \<open>
  The code of the functions the store is given, each known by its reference. A selector,
  an updater or a comparator is a function of its arguments and the heap, which may
  allocate and may throw but does not call back into the store (\<open>callables\<close>). A
  listener, which the type \<open>Subscribe\<close> makes a function, runs a script of store
  operations chosen by the argument it receives (\<open>listeners\<close>); what else its body does
  is of no concern to the store.

  \<open>function_heirs\<close> tells which objects have \<open>Function.prototype\<close> in their prototype
  chain without being functions, such as \<open>Object.create(Function.prototype)\<close>.

  \<open>passes_state\<close> tells the variants of \<open>set\<close> apart: \<open>listener(state)\<close> in store.ts
  line 73, in the class \<open>Store\<close> and in the second \<open>createStore\<close> of index.ts;
  \<open>listener()\<close> in the first \<open>createStore\<close> of index.ts, line 76.
\<close>

record env =
  callables :: "fid \<Rightarrow> val list \<Rightarrow> heap \<Rightarrow> completion \<times> heap"
  listeners :: "fid \<Rightarrow> val \<Rightarrow> action list"
  function_heirs :: "addr \<Rightarrow> bool"
  passes_state :: bool

text \<open>
  The closure variables of \<open>createStore\<close> (the fields of the class \<open>Store\<close>), with the
  heap and the trace. \<open>subscriptions\<close> is a JavaScript \<open>Set\<close>: the list of its entries in
  insertion order, where a deleted entry stays in place as \<open>None\<close> (the \<open>empty\<close> marker
  of ECMAScript's set data), so that an iteration in progress keeps its position.
\<close>

record world =
  state :: val
  subscriptions :: "fid option list"
  heap :: heap
  log :: "event list"

definition createStore :: "val \<Rightarrow> heap \<Rightarrow> world" where
  "createStore initialState h =
     \<lparr>state = initialState, subscriptions = [], heap = h, log = []\<rparr>"

text \<open>The listeners that are registered, in insertion order.\<close>

fun live :: "fid option list \<Rightarrow> fid list" where
  "live [] = []"
| "live (None # es) = live es"
| "live (Some l # es) = l # live es"

definition registered :: "world \<Rightarrow> fid list" where
  "registered w = live (subscriptions w)"

text \<open>\<open>Set.prototype.add\<close> and \<open>Set.prototype.delete\<close>.\<close>

definition set_add :: "fid option list \<Rightarrow> fid \<Rightarrow> fid option list" where
  "set_add es l = (if Some l \<in> set es then es else es @ [Some l])"

definition set_delete :: "fid option list \<Rightarrow> fid \<Rightarrow> fid option list" where
  "set_delete es l = map (\<lambda>e. if e = Some l then None else e) es"

text \<open>
  \<open>subscribe(listener)\<close> adds the listener and returns the closure
  \<open>() => subscriptions.delete(listener)\<close>; that closure is \<open>unsubscribe listener\<close>.
\<close>

definition subscribe :: "fid \<Rightarrow> world \<Rightarrow> world" where
  "subscribe listener w = w\<lparr>subscriptions := set_add (subscriptions w) listener\<rparr>"

definition unsubscribe :: "fid \<Rightarrow> world \<Rightarrow> world" where
  "unsubscribe listener w = w\<lparr>subscriptions := set_delete (subscriptions w) listener\<rparr>"

text \<open>Calling a selector, updater or comparator; the heap it leaves is kept.\<close>

definition call :: "env \<Rightarrow> fid \<Rightarrow> val list \<Rightarrow> world \<Rightarrow> completion \<times> world" where
  "call env f args w =
     (case callables env f args (heap w) of (c, h') \<Rightarrow> (c, w\<lparr>heap := h'\<rparr>))"

text \<open>
  \<open>x instanceof Function\<close>: whether \<open>Function.prototype\<close> is in the prototype chain of
  \<open>x\<close>. It is false of every primitive and of a function of another realm, and true of
  an object that inherits from \<open>Function.prototype\<close>, which cannot be called.
\<close>

fun instance_of_function :: "env \<Rightarrow> val \<Rightarrow> bool" where
  "instance_of_function env (Fun f) = True"
| "instance_of_function env (Ref a) = function_heirs env a"
| "instance_of_function env v = False"

text \<open>
  The \<open>TypeError\<close> that the call of a value that cannot be called throws, known by its
  name.
\<close>

definition type_error :: val where
  "type_error = Str ''TypeError''"

text \<open>The call \<open>x(args)\<close> of a value.\<close>

fun apply_value :: "env \<Rightarrow> val \<Rightarrow> val list \<Rightarrow> world \<Rightarrow> completion \<times> world" where
  "apply_value env (Fun f) args w = call env f args w"
| "apply_value env (ForeignFun f) args w = call env f args w"
| "apply_value env v args w = (Abrupt type_error, w)"

text \<open>
  \<open>get(selector)\<close>; \<open>get()\<close> is \<open>get_store env Undefined\<close>.
\<close>

definition get_store :: "env \<Rightarrow> val \<Rightarrow> world \<Rightarrow> completion \<times> world" where
  "get_store env selector w =
     (if instance_of_function env selector then apply_value env selector [state w] w
      else (Normal (state w), w))"

text \<open>The right-hand side \<open>set instanceof Function ? set(state) : set\<close>.\<close>

definition resolve_setter :: "env \<Rightarrow> val \<Rightarrow> world \<Rightarrow> completion \<times> world" where
  "resolve_setter env setter w =
     (if instance_of_function env setter then apply_value env setter [state w] w
      else (Normal setter, w))"

text \<open>What a listener is called with: \<open>listener(state)\<close> or \<open>listener()\<close>.\<close>

definition listener_arg :: "env \<Rightarrow> val \<Rightarrow> val" where
  "listener_arg env s = (if passes_state env then s else Undefined)"

text \<open>
  \<open>set\<close>, the \<open>forEach\<close> over the subscriptions, and the body of a listener. A
  listener may call \<open>set\<close> again, and may add itself back to the registry for ever, so
  the first argument bounds the number of listener invocations still allowed; the answer
  is \<open>Exhausted\<close> when a listener is due and none is left.

  \<open>for_each n env i w\<close> is \<open>Set.prototype.forEach\<close> at index \<open>i\<close>: it reads the entries
  as they are now, skips the deleted ones, and goes on until the index reaches the current
  number of entries, so entries added meanwhile are visited too.
\<close>

function set_store :: "nat \<Rightarrow> env \<Rightarrow> val \<Rightarrow> world \<Rightarrow> completion \<times> world"
  and for_each :: "nat \<Rightarrow> env \<Rightarrow> nat \<Rightarrow> world \<Rightarrow> completion \<times> world"
  and run_listener :: "nat \<Rightarrow> env \<Rightarrow> fid \<Rightarrow> action list \<Rightarrow> world \<Rightarrow> completion \<times> world"
where
  "set_store n env setter w =
     (case resolve_setter env setter w of
        (Normal s, w1) \<Rightarrow>
          (case for_each n env 0 (w1\<lparr>state := s\<rparr>) of
             (Normal u, w2) \<Rightarrow> (Normal (state w2), w2)
           | (c, w2) \<Rightarrow> (c, w2))
      | (c, w1) \<Rightarrow> (c, w1))"
| "for_each n env i w =
     (if length (subscriptions w) \<le> i then (Normal Undefined, w)
      else (case subscriptions w ! i of
              None \<Rightarrow> for_each n env (Suc i) w
            | Some l \<Rightarrow>
                (case n of
                   0 \<Rightarrow> (Exhausted, w)
                 | Suc m \<Rightarrow>
                     (let arg = listener_arg env (state w) in
                      case run_listener m env l (listeners env l arg)
                             (w\<lparr>log := log w @ [Invoked l arg]\<rparr>) of
                        (Normal u, w') \<Rightarrow> for_each m env (Suc i) w'
                      | (c, w') \<Rightarrow> (c, w')))))"
| "run_listener n env l [] w = (Normal Undefined, w)"
| "run_listener n env l (a # as) w =
     (case a of
        DoGet \<Rightarrow>
          (case get_store env Undefined w of
             (Normal r, w') \<Rightarrow> run_listener n env l as (w'\<lparr>log := log w' @ [Observed l r]\<rparr>)
           | (c, w') \<Rightarrow> (c, w'))
      | DoSet v \<Rightarrow>
          (case set_store n env v w of
             (Normal r, w') \<Rightarrow> run_listener n env l as w'
           | (c, w') \<Rightarrow> (c, w'))
      | DoSubscribe l' \<Rightarrow> run_listener n env l as (subscribe l' w)
      | DoUnsubscribe l' \<Rightarrow> run_listener n env l as (unsubscribe l' w)
      | DoThrow e \<Rightarrow> (Abrupt e, w))"
  by pat_completeness auto
termination
  by (relation "inv_image (less_than <*lex*> less_than <*lex*> less_than)
        (\<lambda>x. case x of
               Inl (n, env, setter, w) \<Rightarrow> (n, 1::nat, 0::nat)
             | Inr (Inl (n, env, i, w)) \<Rightarrow> (n, 0, length (subscriptions w) - i)
             | Inr (Inr (n, env, l, as, w)) \<Rightarrow> (n, 2, length as))")
     auto

declare set_store.simps [simp del] for_each.simps [simp del]

text \<open>
  What \<open>set\<close> does once its right-hand side has given the new state \<open>s\<close>: the
  assignment \<open>state = s\<close>, the \<open>forEach\<close>, and \<open>return state\<close>.
\<close>

definition commit :: "nat \<Rightarrow> env \<Rightarrow> val \<Rightarrow> world \<Rightarrow> completion \<times> world" where
  "commit n env s w =
     (case for_each n env 0 (w\<lparr>state := s\<rparr>) of
        (Normal u, w2) \<Rightarrow> (Normal (state w2), w2)
      | (c, w2) \<Rightarrow> (c, w2))"

section \<open>useEqual (store.ts, lines 113 to 122)\<close>

text \<open>
  \<open>useEqual(selector, equals)\<close> returns a closure over the cell \<open>prev\<close>, which
  \<open>React.useRef()\<close> creates holding \<open>undefined\<close>. \<open>useEqual env selector equals st prev w\<close>
  is one call of that closure on the state \<open>st\<close> with the cell holding \<open>prev\<close>: it gives
  the completion, the cell afterwards and the world afterwards.
\<close>

definition useEqual ::
  "env \<Rightarrow> fid \<Rightarrow> fid \<Rightarrow> val \<Rightarrow> val \<Rightarrow> world \<Rightarrow> completion \<times> val \<times> world" where
  "useEqual env selector equals st prev w =
     (case call env selector [st] w of
        (Normal next, w1) \<Rightarrow>
          (case call env equals [prev, next] w1 of
             (Normal t, w2) \<Rightarrow>
               (if truthy t then (Normal prev, prev, w2) else (Normal next, next, w2))
           | (c, w2) \<Rightarrow> (c, prev, w2))
      | (c, w1) \<Rightarrow> (c, prev, w1))"

text \<open>The closure called on one state after another, from a given cell.\<close>

fun gate_run ::
  "env \<Rightarrow> fid \<Rightarrow> fid \<Rightarrow> val list \<Rightarrow> val \<Rightarrow> world \<Rightarrow> completion list \<times> val \<times> world" where
  "gate_run env selector equals [] prev w = ([], prev, w)"
| "gate_run env selector equals (st # sts) prev w =
     (case useEqual env selector equals st prev w of
        (c, prev', w') \<Rightarrow>
          (case gate_run env selector equals sts prev' w' of
             (cs, prev'', w'') \<Rightarrow> (c # cs, prev'', w'')))"

section \<open>Reading the trace\<close>

text \<open>The calls of listeners in a trace, as pairs of listener and argument.\<close>

fun invocations :: "event list \<Rightarrow> (fid \<times> val) list" where
  "invocations [] = []"
| "invocations (Invoked l a # es) = (l, a) # invocations es"
| "invocations (Observed l v # es) = invocations es"


text \<open>The entries of such a list that belong to one listener.\<close>

definition of_listener :: "fid \<Rightarrow> (fid \<times> val) list \<Rightarrow> (fid \<times> val) list" where
  "of_listener l xs = filter (\<lambda>x. fst x = l) xs"

text \<open>
  A listener is quiet on an argument when its body, called with that argument, only reads
  the store: it returns normally and calls neither \<open>set\<close> nor \<open>subscribe\<close> nor an
  unsubscribe function.
\<close>

definition quiet :: "env \<Rightarrow> val \<Rightarrow> fid \<Rightarrow> bool" where
  "quiet env arg l = list_all (\<lambda>a. a = DoGet) (listeners env l arg)"

text \<open>
  The trace of one notification of the listeners \<open>ls\<close>, in order, when the state is \<open>s\<close>
  and each listener is quiet: the call of the listener, then one observation of \<open>s\<close> for
  each \<open>get()\<close> in its body.
\<close>

definition notify_trace :: "env \<Rightarrow> val \<Rightarrow> fid list \<Rightarrow> event list" where
  "notify_trace env s ls =
     concat (map (\<lambda>l. Invoked l (listener_arg env s)
                        # map (\<lambda>a. Observed l s) (listeners env l (listener_arg env s))) ls)"

text \<open>The invariant of the registry: no listener is registered twice.\<close>

definition unique_listeners :: "world \<Rightarrow> bool" where
  "unique_listeners w = distinct (registered w)"

text \<open>
  Listener \<open>l\<close> is not registered, and its calls so far are \<open>calls\<close>.
\<close>

definition unregistered :: "fid \<Rightarrow> (fid \<times> val) list \<Rightarrow> world \<Rightarrow> bool" where
  "unregistered l calls w =
     (l \<notin> set (registered w) \<and> of_listener l (invocations (log w)) = calls)"

text \<open>A caller making one \<open>set\<close> call after another, whatever each call's completion.\<close>

fun set_many :: "nat \<Rightarrow> env \<Rightarrow> val list \<Rightarrow> world \<Rightarrow> world" where
  "set_many n env [] w = w"
| "set_many n env (v # vs) w = set_many n env vs (snd (set_store n env v w))"

section \<open>Sample functions and stores\<close>

text \<open>
  Function 0 is \<open>() => (() => 42)\<close> and function 1 is the \<open>() => 42\<close> it returns;
  function 2 throws; function 3 is the selector \<open>s => ({x: s})\<close>, which allocates a
  new object at each call; function 4 is \<open>shallowEqual\<close> used as a comparator; function 5
  is the comparator \<open>() => true\<close>; any other function is \<open>s => s\<close>.
\<close>

definition first_arg :: "val list \<Rightarrow> val" where
  "first_arg args = (case args of [] \<Rightarrow> Undefined | a # as \<Rightarrow> a)"

definition second_arg :: "val list \<Rightarrow> val" where
  "second_arg args = (case args of a # b # bs \<Rightarrow> b | _ \<Rightarrow> Undefined)"

definition sample_callables :: "fid \<Rightarrow> val list \<Rightarrow> heap \<Rightarrow> completion \<times> heap" where
  "sample_callables f args h =
     (if f = 0 then (Normal (Fun 1), h)
      else if f = 1 then (Normal (Num (Fin 42)), h)
      else if f = 2 then (Abrupt (Str ''boom''), h)
      else if f = 3 then (Normal (Ref (length h)), h @ [Obj Ordinary [(''x'', first_arg args)]])
      else if f = 4 then
        (case shallowEqual h (first_arg args) (second_arg args) of
           Some r \<Rightarrow> (Normal (Bool r), h)
         | None \<Rightarrow> (Abrupt (Str ''dangling reference''), h))
      else if f = 5 then (Normal (Bool True), h)
      else (Normal (first_arg args), h))"

text \<open>Listeners whose body is \<open>get()\<close>, in a store of store.ts.\<close>

definition reading_env :: env where
  "reading_env =
     \<lparr>callables = sample_callables, listeners = (\<lambda>l a. [DoGet]),
      function_heirs = (\<lambda>a. False), passes_state = True\<rparr>"


text \<open>
  Listener 1 calls the unsubscribe function of listener 2; the other listeners call
  \<open>get()\<close>.
\<close>

definition unsubscribing_env :: env where
  "unsubscribing_env =
     \<lparr>callables = sample_callables,
      listeners = (\<lambda>l a. if l = 1 then [DoUnsubscribe 2] else [DoGet]),
      function_heirs = (\<lambda>a. False), passes_state = True\<rparr>"

text \<open>Listener 1 throws; the other listeners call \<open>get()\<close>.\<close>

definition throwing_env :: env where
  "throwing_env =
     \<lparr>callables = sample_callables,
      listeners = (\<lambda>l a. if l = 1 then [DoThrow (Str ''boom'')] else [DoGet]),
      function_heirs = (\<lambda>a. False), passes_state = True\<rparr>"

text \<open>
  Listener 1, called with anything but 6, calls \<open>set(6)\<close>; called with 6 it calls
  \<open>get()\<close>, as the other listeners do.
\<close>

definition writing_env :: env where
  "writing_env =
     \<lparr>callables = sample_callables,
      listeners =
        (\<lambda>l a. if l = 1 \<and> a \<noteq> Num (Fin 6) then [DoSet (Num (Fin 6))] else [DoGet]),
      function_heirs = (\<lambda>a. False), passes_state = True\<rparr>"

text \<open>
  Listener 2 calls the unsubscribe function of listener 1 and subscribes listener 1 again;
  the other listeners call \<open>get()\<close>.
\<close>

definition resubscribing_env :: env where
  "resubscribing_env =
     \<lparr>callables = sample_callables,
      listeners = (\<lambda>l a. if l = 2 then [DoUnsubscribe 1, DoSubscribe 1] else [DoGet]),
      function_heirs = (\<lambda>a. False), passes_state = True\<rparr>"

text \<open>
  The listeners of \<open>reading_env\<close>, where the object at address 0 has been made by
  \<open>Object.create(Function.prototype)\<close>.
\<close>

definition heir_env :: env where
  "heir_env =
     \<lparr>callables = sample_callables, listeners = (\<lambda>l a. [DoGet]),
      function_heirs = (\<lambda>a. a = 0), passes_state = True\<rparr>"

text \<open>A new store with listener 1, then listener 2, subscribed.\<close>

definition two_listeners :: world where
  "two_listeners = subscribe 2 (subscribe 1 (createStore Undefined []))"

text \<open>A store whose heap holds the object \<open>{x:1}\<close> at address 0.\<close>

definition one_object :: world where
  "one_object = createStore (Num (Fin 1)) [Obj Ordinary [(''x'', Num (Fin 1))]]"

text \<open>The same store with listener 2 subscribed.\<close>

definition one_object_listened :: world where
  "one_object_listened = subscribe 2 one_object"

text \<open>
  The objects of the examples: \<open>{a:1,b:2}\<close> twice, \<open>{a:1,b:{c:1}}\<close> twice with the
  inner objects at addresses 4 and 5, \<open>new Map([["x",1]])\<close> twice, and \<open>{a:NaN}\<close> twice.
\<close>

definition sample_heap :: heap where
  "sample_heap =
     [Obj Ordinary [(''a'', Num (Fin 1)), (''b'', Num (Fin 2))],
      Obj Ordinary [(''a'', Num (Fin 1)), (''b'', Num (Fin 2))],
      Obj Ordinary [(''a'', Num (Fin 1)), (''b'', Ref 4)],
      Obj Ordinary [(''a'', Num (Fin 1)), (''b'', Ref 5)],
      Obj Ordinary [(''c'', Num (Fin 1))],
      Obj Ordinary [(''c'', Num (Fin 1))],
      Obj (MapData [(Str ''x'', Num (Fin 1))]) [],
      Obj (MapData [(Str ''x'', Num (Fin 1))]) [],
      Obj Ordinary [(''a'', Num NaN)],
      Obj Ordinary [(''a'', Num NaN)]]"

section \<open>The registry\<close>

lemma live_mem: "l \<in> set (live es) \<longleftrightarrow> Some l \<in> set es"
  by (induction es rule: live.induct) auto

lemma live_append: "live (xs @ ys) = live xs @ live ys"
  by (induction xs rule: live.induct) auto

lemma live_set_add:
  "live (set_add es l) = (if l \<in> set (live es) then live es else live es @ [l])"
  by (simp add: set_add_def live_mem live_append)

lemma live_set_delete: "live (set_delete es l) = removeAll l (live es)"
  by (induction es rule: live.induct) (auto simp: set_delete_def)

lemma registered_subscribe:
  "registered (subscribe l w) =
     (if l \<in> set (registered w) then registered w else registered w @ [l])"
  by (simp add: registered_def subscribe_def live_set_add)

lemma registered_unsubscribe: "registered (unsubscribe l w) = removeAll l (registered w)"
  by (simp add: registered_def unsubscribe_def live_set_delete)

lemma set_delete_absent: "Some l \<notin> set es \<Longrightarrow> set_delete es l = es"
  by (induction es) (auto simp: set_delete_def)

lemma set_delete_idem: "set_delete (set_delete es l) l = set_delete es l"
  by (induction es) (auto simp: set_delete_def)

lemma set_add_idem: "set_add (set_add es l) l = set_add es l"
  by (simp add: set_add_def)

lemma live_drop_step:
  "i < length es \<Longrightarrow>
   live (drop i es) = (case es ! i of None \<Rightarrow> [] | Some l \<Rightarrow> [l]) @ live (drop (Suc i) es)"
  by (simp add: Cons_nth_drop_Suc [symmetric] split: option.splits)

section \<open>What a call leaves alone\<close>

lemma call_frame:
  "call env f args w = (c, w') \<Longrightarrow>
   state w' = state w \<and> subscriptions w' = subscriptions w \<and> log w' = log w"
  by (auto simp: call_def split: prod.splits)

lemma resolve_setter_frame:
  "resolve_setter env v w = (c, w') \<Longrightarrow>
   state w' = state w \<and> subscriptions w' = subscriptions w \<and> log w' = log w"
  by (cases v) (auto simp: resolve_setter_def dest: call_frame split: if_splits)

lemma get_store_frame:
  "get_store env v w = (c, w') \<Longrightarrow>
   state w' = state w \<and> subscriptions w' = subscriptions w \<and> log w' = log w"
  by (cases v) (auto simp: get_store_def dest: call_frame split: if_splits)

lemma resolve_setter_plain:
  "\<not> instance_of_function env v \<Longrightarrow> resolve_setter env v w = (Normal v, w)"
  by (simp add: resolve_setter_def)

lemma resolve_setter_fun:
  "callables env f [state w] (heap w) = (c, h') \<Longrightarrow>
   resolve_setter env (Fun f) w = (c, w\<lparr>heap := h'\<rparr>)"
  by (simp add: resolve_setter_def call_def)

lemma resolve_setter_heir:
  "instance_of_function env v \<Longrightarrow> \<not> is_callable v \<Longrightarrow>
   resolve_setter env v w = (Abrupt type_error, w)"
  by (cases v) (simp_all add: resolve_setter_def)

lemma set_store_commit:
  "set_store n env setter w =
     (case resolve_setter env setter w of
        (Normal s, w1) \<Rightarrow> commit n env s w1
      | (c, w1) \<Rightarrow> (c, w1))"
  by (simp add: set_store.simps commit_def split: prod.splits completion.splits)

section \<open>Traces\<close>

lemma invocations_append: "invocations (xs @ ys) = invocations xs @ invocations ys"
  by (induction xs rule: invocations.induct) simp_all


lemma invocations_observed: "invocations (map (\<lambda>a. Observed l s) as) = []"
  by (induction as) simp_all

lemma invocations_notify_trace:
  "invocations (notify_trace env s ls) = map (\<lambda>l. (l, listener_arg env s)) ls"
  by (induction ls) (simp_all add: notify_trace_def invocations_append invocations_observed)



section \<open>Notification of quiet listeners\<close>

lemma run_listener_quiet:
  "list_all (\<lambda>a. a = DoGet) as \<Longrightarrow>
   run_listener n env l as w =
     (Normal Undefined, w\<lparr>log := log w @ map (\<lambda>a. Observed l (state w)) as\<rparr>)"
  by (induction as arbitrary: w) (auto simp: get_store_def)

lemma for_each_quiet:
  "\<forall>l \<in> set (live (drop i (subscriptions w))). quiet env (listener_arg env (state w)) l \<Longrightarrow>
   length (live (drop i (subscriptions w))) \<le> n \<Longrightarrow>
   for_each n env i w =
     (Normal Undefined,
      w\<lparr>log := log w @ notify_trace env (state w) (live (drop i (subscriptions w)))\<rparr>)"
proof (induction k \<equiv> "length (subscriptions w) - i" arbitrary: i n w)
  case 0
  then show ?case by (simp add: for_each.simps notify_trace_def)
next
  case (Suc k)
  then have i: "i < length (subscriptions w)" by simp
  show ?case
  proof (cases "subscriptions w ! i")
    case None
    have "for_each n env i w = for_each n env (Suc i) w"
      using i None by (subst for_each.simps) simp
    moreover have "live (drop i (subscriptions w)) = live (drop (Suc i) (subscriptions w))"
      using live_drop_step [OF i] None by simp
    ultimately show ?thesis
      using Suc.hyps(1) [of w "Suc i" n] Suc.hyps(2) Suc.prems by simp
  next
    case (Some l)
    have reg: "live (drop i (subscriptions w)) = l # live (drop (Suc i) (subscriptions w))"
      using live_drop_step [OF i] Some by simp
    then obtain m where n: "n = Suc m" using Suc.prems(2) by (cases n) auto
    let ?arg = "listener_arg env (state w)"
    let ?w1 = "w\<lparr>log := log w @ [Invoked l ?arg]\<rparr>"
    let ?w2 = "?w1\<lparr>log := log ?w1 @ map (\<lambda>a. Observed l (state ?w1)) (listeners env l ?arg)\<rparr>"
    have q: "list_all (\<lambda>a. a = DoGet) (listeners env l ?arg)"
      using Suc.prems(1) reg by (simp add: quiet_def)
    have step: "for_each n env i w = for_each m env (Suc i) ?w2"
      using i Some n run_listener_quiet [OF q, of m env l ?w1]
      by (subst for_each.simps) (simp add: Let_def)
    have "for_each m env (Suc i) ?w2 =
            (Normal Undefined,
             ?w2\<lparr>log := log ?w2 @ notify_trace env (state ?w2)
                                    (live (drop (Suc i) (subscriptions ?w2)))\<rparr>)"
      using Suc.hyps(2) Suc.prems reg n by (intro Suc.hyps(1)) auto
    then show ?thesis using step reg by (simp add: notify_trace_def)
  qed
qed

lemma set_store_quiet:
  assumes r: "resolve_setter env setter w = (Normal s, w1)"
    and q: "\<forall>l \<in> set (registered w). quiet env (listener_arg env s) l"
    and n: "length (registered w) \<le> n"
  shows "set_store n env setter w =
           (Normal s, w1\<lparr>state := s, log := log w @ notify_trace env s (registered w)\<rparr>)"
proof -
  let ?w = "w1\<lparr>state := s\<rparr>"
  have same: "subscriptions w1 = subscriptions w" "log w1 = log w"
    using resolve_setter_frame [OF r] by simp_all
  have reg: "live (drop 0 (subscriptions ?w)) = registered w"
    using same by (simp add: registered_def)
  have "for_each n env 0 ?w =
          (Normal Undefined,
           ?w\<lparr>log := log ?w @ notify_trace env (state ?w) (live (drop 0 (subscriptions ?w)))\<rparr>)"
    using q n unfolding reg [symmetric] by (intro for_each_quiet) simp_all
  then show ?thesis using r same reg by (simp add: set_store.simps)
qed

section \<open>Invariants of a notification\<close>

text \<open>
  A property of the registry and of the calls in the trace that subscribing, unsubscribing
  and calling a registered listener keep is kept by \<open>set\<close>, whatever the listeners do
  and however far the evaluation gets.
\<close>

lemma run_invariant:
  fixes P :: "world \<Rightarrow> bool" and ok :: "fid \<Rightarrow> bool"
  assumes frame: "\<And>w w'. P w \<Longrightarrow> subscriptions w' = subscriptions w \<Longrightarrow>
                    invocations (log w') = invocations (log w) \<Longrightarrow> P w'"
    and sub: "\<And>w l'. P w \<Longrightarrow> ok l' \<Longrightarrow> P (subscribe l' w)"
    and unsub: "\<And>w l'. P w \<Longrightarrow> P (unsubscribe l' w)"
    and inv: "\<And>w l' a. P w \<Longrightarrow> Some l' \<in> set (subscriptions w) \<Longrightarrow>
                    P (w\<lparr>log := log w @ [Invoked l' a]\<rparr>)"
  shows "(\<forall>f a l'. DoSubscribe l' \<in> set (listeners env f a) \<longrightarrow> ok l') \<longrightarrow> P w
           \<longrightarrow> P (snd (set_store n env v w))"
    and "(\<forall>f a l'. DoSubscribe l' \<in> set (listeners env2 f a) \<longrightarrow> ok l') \<longrightarrow> P w2
           \<longrightarrow> P (snd (for_each n2 env2 i w2))"
    and "(\<forall>f a l'. DoSubscribe l' \<in> set (listeners env3 f a) \<longrightarrow> ok l') \<longrightarrow>
         (\<forall>l'. DoSubscribe l' \<in> set as \<longrightarrow> ok l') \<longrightarrow> P w3
           \<longrightarrow> P (snd (run_listener n3 env3 l as w3))"
proof (induction n env v w and n2 env2 i w2 and n3 env3 l as w3
        rule: set_store_for_each_run_listener.induct)
  case (1 n env setter w)
  show ?case
  proof (intro impI)
    assume e: "\<forall>f a l'. DoSubscribe l' \<in> set (listeners env f a) \<longrightarrow> ok l'" and u: "P w"
    obtain c w1 where r: "resolve_setter env setter w = (c, w1)"
      by (cases "resolve_setter env setter w")
    have u1: "P w1" using resolve_setter_frame [OF r] u frame by simp
    show "P (snd (set_store n env setter w))"
    proof (cases c)
      case (Normal s)
      have "P (w1\<lparr>state := s\<rparr>)" using u1 frame [of w1 "w1\<lparr>state := s\<rparr>"] by simp
      then have "P (snd (for_each n env 0 (w1\<lparr>state := s\<rparr>)))"
        using 1 [OF r [symmetric] Normal] e by simp
      then show ?thesis using r Normal
        by (subst set_store.simps) (auto split: prod.splits completion.splits)
    qed (use r u1 in \<open>simp_all add: set_store.simps\<close>)
  qed
next
  case (2 n env i w)
  show ?case
  proof (intro impI)
    assume e: "\<forall>f a l'. DoSubscribe l' \<in> set (listeners env f a) \<longrightarrow> ok l'" and u: "P w"
    show "P (snd (for_each n env i w))"
    proof (cases "length (subscriptions w) \<le> i")
      case True
      then show ?thesis using u by (simp add: for_each.simps)
    next
      case False
      show ?thesis
      proof (cases "subscriptions w ! i")
        case None
        then show ?thesis using False u e 2(1) by (subst for_each.simps) simp
      next
        case (Some l)
        have mem: "Some l \<in> set (subscriptions w)"
          using False Some nth_mem [of i "subscriptions w"] by simp
        show ?thesis
        proof (cases n)
          case 0
          then show ?thesis using False Some u by (subst for_each.simps) simp
        next
          case (Suc m)
          let ?arg = "listener_arg env (state w)"
          let ?w1 = "w\<lparr>log := log w @ [Invoked l ?arg]\<rparr>"
          obtain c w' where rl: "run_listener m env l (listeners env l ?arg) ?w1 = (c, w')"
            by (cases "run_listener m env l (listeners env l ?arg) ?w1")
          have "P ?w1" using u mem inv by simp
          moreover have "\<forall>l'. DoSubscribe l' \<in> set (listeners env l ?arg) \<longrightarrow> ok l'"
            using e by blast
          ultimately have u': "P w'"
            using 2(2) [OF False Some Suc refl] rl e by simp
          show ?thesis
          proof (cases c)
            case (Normal x)
            then show ?thesis using False Some Suc rl u' e
                2(3) [OF False Some Suc refl rl [symmetric] Normal]
              by (subst for_each.simps) (simp add: Let_def)
          qed (use False Some Suc rl u' in \<open>simp_all add: for_each.simps Let_def\<close>)
        qed
      qed
    qed
  qed
next
  case (3 n env l w)
  then show ?case by simp
next
  case (4 n env l a as w)
  show ?case
  proof (intro impI)
    assume e: "\<forall>f a l'. DoSubscribe l' \<in> set (listeners env f a) \<longrightarrow> ok l'"
      and s: "\<forall>l'. DoSubscribe l' \<in> set (a # as) \<longrightarrow> ok l'" and u: "P w"
    have s': "\<forall>l'. DoSubscribe l' \<in> set as \<longrightarrow> ok l'" using s by simp
    show "P (snd (run_listener n env l (a # as) w))"
    proof (cases a)
      case DoGet
      obtain c w' where g: "get_store env Undefined w = (c, w')"
        by (cases "get_store env Undefined w")
      have u': "P w'" using get_store_frame [OF g] u frame by simp
      show ?thesis
      proof (cases c)
        case (Normal r)
        have "P (w'\<lparr>log := log w' @ [Observed l r]\<rparr>)"
          using u' frame [of w' "w'\<lparr>log := log w' @ [Observed l r]\<rparr>"]
          by (simp add: invocations_append)
        then show ?thesis using DoGet g Normal e s' 4(1) [OF DoGet g [symmetric] Normal] by simp
      qed (use DoGet g u' in simp_all)
    next
      case (DoSet v)
      obtain c w' where st: "set_store n env v w = (c, w')" by (cases "set_store n env v w")
      have u': "P w'" using 4(2) [OF DoSet] st u e by simp
      show ?thesis
      proof (cases c)
        case (Normal r)
        then show ?thesis using DoSet st u' e s' 4(3) [OF DoSet st [symmetric] Normal] by simp
      qed (use DoSet st u' in simp_all)
    next
      case (DoSubscribe l')
      then have "ok l'" using s by simp
      then show ?thesis using DoSubscribe 4(4) [OF DoSubscribe] sub [OF u] e s' by simp
    next
      case (DoUnsubscribe l')
      then show ?thesis using 4(5) [OF DoUnsubscribe] unsub [OF u] e s' by simp
    next
      case (DoThrow x)
      then show ?thesis using u by simp
    qed
  qed
qed

section \<open>Reading the store\<close>

text \<open>
  Claim C4, as amended. \<open>get()\<close> returns the current state and leaves the store as it
  is. \<open>get(x)\<close> with an \<open>x\<close> that is an instance of \<open>Function\<close> calls \<open>x(state)\<close>: it
  returns what a function returns, and throws a \<open>TypeError\<close> when \<open>x\<close> cannot be called.
  With any other argument, a function that is not an instance of \<open>Function\<close> included,
  \<open>get\<close> behaves as \<open>get()\<close>. The instances of \<open>Function\<close> that can be called are
  the values \<open>Fun f\<close>.
\<close>

theorem get_returns_state_or_selection:
  "get_store env Undefined w = (Normal (state w), w)
   \<and> get_store env (Fun selector) w =
       (fst (callables env selector [state w] (heap w)),
        w\<lparr>heap := snd (callables env selector [state w] (heap w))\<rparr>)
   \<and> (instance_of_function env x \<and> is_callable x \<longrightarrow> (\<exists>f. x = Fun f))
   \<and> (instance_of_function env x \<and> \<not> is_callable x \<longrightarrow>
        get_store env x w = (Abrupt type_error, w))
   \<and> (\<not> instance_of_function env x \<longrightarrow> get_store env x w = (Normal (state w), w))"
  by (cases x) (simp_all add: get_store_def call_def split: prod.splits)

theorem get_returns_state_or_selection_witness:
  "\<not> instance_of_function heir_env (Str ''lastName'')
   \<and> get_store heir_env (Str ''lastName'') one_object = (Normal (Num (Fin 1)), one_object)
   \<and> instance_of_function heir_env (Ref 0)
   \<and> \<not> is_callable (Ref 0)
   \<and> get_store heir_env (Ref 0) one_object = (Abrupt type_error, one_object)
   \<and> get_store heir_env (Fun 3) one_object
       = (Normal (Ref 1),
          one_object\<lparr>heap := [Obj Ordinary [(''x'', Num (Fin 1))],
                               Obj Ordinary [(''x'', Num (Fin 1))]]\<rparr>)"
proof -
  have a: "\<not> instance_of_function heir_env (Str ''lastName'')"
    by simp
  have b: "instance_of_function heir_env (Ref 0) \<and> \<not> is_callable (Ref 0)"
    by (simp add: heir_env_def)
  have c: "callables heir_env 3 [state one_object] (heap one_object)
             = (Normal (Ref 1), [Obj Ordinary [(''x'', Num (Fin 1))],
                                 Obj Ordinary [(''x'', Num (Fin 1))]])"
    by (simp add: heir_env_def sample_callables_def one_object_def createStore_def first_arg_def)
  have s: "state one_object = Num (Fin 1)"
    by (simp add: one_object_def createStore_def)
  show ?thesis
    using a b c s
      get_returns_state_or_selection
        [where env = heir_env and w = one_object and selector = 3 and x = "Str ''lastName''"]
      get_returns_state_or_selection
        [where env = heir_env and w = one_object and selector = 3 and x = "Ref 0"]
    by simp
qed

text \<open>
  Claim C4 as stated fails both ways, because \<open>get\<close> tests \<open>instanceof Function\<close>. A
  function that is not an instance of \<open>Function\<close> is a callable selector, and \<open>get\<close>
  does not apply it: called on the state 7 it would return 42, and \<open>get\<close> returns 7. An
  object made by \<open>Object.create(Function.prototype)\<close> is not callable, and \<open>get\<close> does
  not behave as \<open>get()\<close> on it: it throws a \<open>TypeError\<close>, where \<open>get()\<close> returns 1.
\<close>

theorem get_tests_instanceof_not_callability:
  "is_callable (ForeignFun 1)
   \<and> fst (apply_value reading_env (ForeignFun 1) [Num (Fin 7)] (createStore (Num (Fin 7)) []))
       = Normal (Num (Fin 42))
   \<and> get_store reading_env (ForeignFun 1) (createStore (Num (Fin 7)) [])
       = (Normal (Num (Fin 7)), createStore (Num (Fin 7)) [])
   \<and> \<not> is_callable (Ref 0)
   \<and> get_store heir_env (Ref 0) one_object = (Abrupt type_error, one_object)
   \<and> get_store heir_env Undefined one_object = (Normal (Num (Fin 1)), one_object)"
  by (simp add: get_store_def call_def reading_env_def heir_env_def sample_callables_def
        createStore_def one_object_def)

section \<open>Exceptions\<close>

text \<open>
  Claim C9. When the selector given to \<open>get\<close> or the updater given to \<open>set\<close> throws,
  the call completes abruptly with the very value thrown. After such a \<open>set\<close> the state,
  the registry and the trace are what they were: nothing is stored and no listener is
  called.
\<close>

theorem thrown_exceptions_propagate:
  assumes "callables env f [state w] (heap w) = (Abrupt e, h')"
  shows "get_store env (Fun f) w = (Abrupt e, w\<lparr>heap := h'\<rparr>)
       \<and> set_store n env (Fun f) w = (Abrupt e, w\<lparr>heap := h'\<rparr>)
       \<and> state (snd (set_store n env (Fun f) w)) = state w
       \<and> subscriptions (snd (set_store n env (Fun f) w)) = subscriptions w
       \<and> log (snd (set_store n env (Fun f) w)) = log w"
  using assms by (simp add: get_store_def call_def set_store.simps resolve_setter_def)

theorem thrown_exceptions_propagate_witness:
  "callables reading_env 2 [state two_listeners] (heap two_listeners)
     = (Abrupt (Str ''boom''), [])
   \<and> get_store reading_env (Fun 2) two_listeners = (Abrupt (Str ''boom''), two_listeners)
   \<and> set_store 2 reading_env (Fun 2) two_listeners = (Abrupt (Str ''boom''), two_listeners)
   \<and> state two_listeners = Undefined \<and> registered two_listeners = [1, 2]
   \<and> log two_listeners = []"
proof -
  have h: "callables reading_env 2 [state two_listeners] (heap two_listeners)
             = (Abrupt (Str ''boom''), [])"
    by (simp add: reading_env_def sample_callables_def two_listeners_def subscribe_def
          createStore_def)
  have w: "two_listeners\<lparr>heap := []\<rparr> = two_listeners"
    by (simp add: two_listeners_def subscribe_def createStore_def)
  show ?thesis
    using h thrown_exceptions_propagate [OF h, of 2] w
    by (simp add: two_listeners_def subscribe_def createStore_def set_add_def registered_def)
qed

section \<open>Writing the store\<close>

text \<open>
  Claim C1, as amended. \<open>set(v)\<close> with a \<open>v\<close> that is not an instance of \<open>Function\<close>
  stores \<open>v\<close>; \<open>set(f)\<close> with a function that is one stores what \<open>f(state)\<close> returns;
  \<open>set(x)\<close> with an instance of \<open>Function\<close> that cannot be called throws a \<open>TypeError\<close>
  and changes nothing. After storing, \<open>set\<close> goes through the registry. When every
  registered listener is quiet on what it is called with, the call returns the new state,
  and the trace grows by one call of each registered listener, in insertion order, each
  followed by the observations of its body.
\<close>

theorem set_commits_then_notifies:
  assumes "length (registered w) \<le> n"
  shows "(\<not> instance_of_function env v
            \<and> (\<forall>l \<in> set (registered w). quiet env (listener_arg env v) l) \<longrightarrow>
            set_store n env v w =
              (Normal v, w\<lparr>state := v, log := log w @ notify_trace env v (registered w)\<rparr>))
       \<and> (callables env f [state w] (heap w) = (Normal s, h')
            \<and> (\<forall>l \<in> set (registered w). quiet env (listener_arg env s) l) \<longrightarrow>
            set_store n env (Fun f) w =
              (Normal s,
               w\<lparr>heap := h', state := s, log := log w @ notify_trace env s (registered w)\<rparr>))
       \<and> (instance_of_function env x \<and> \<not> is_callable x \<longrightarrow>
            set_store n env x w = (Abrupt type_error, w))
       \<and> invocations (notify_trace env s (registered w))
            = map (\<lambda>l. (l, listener_arg env s)) (registered w)"
proof (intro conjI impI)
  assume a: "\<not> instance_of_function env v
            \<and> (\<forall>l \<in> set (registered w). quiet env (listener_arg env v) l)"
  show "set_store n env v w =
          (Normal v, w\<lparr>state := v, log := log w @ notify_trace env v (registered w)\<rparr>)"
  proof -
    have "resolve_setter env v w = (Normal v, w)" using a by (simp add: resolve_setter_plain)
    from set_store_quiet [OF this, of n] a assms show ?thesis by simp
  qed
next
  assume a: "callables env f [state w] (heap w) = (Normal s, h')
            \<and> (\<forall>l \<in> set (registered w). quiet env (listener_arg env s) l)"
  show "set_store n env (Fun f) w =
          (Normal s,
           w\<lparr>heap := h', state := s, log := log w @ notify_trace env s (registered w)\<rparr>)"
  proof -
    have "resolve_setter env (Fun f) w = (Normal s, w\<lparr>heap := h'\<rparr>)"
      using a by (simp add: resolve_setter_fun)
    from set_store_quiet [OF this, of n] a assms show ?thesis by simp
  qed
next
  assume "instance_of_function env x \<and> \<not> is_callable x"
  then show "set_store n env x w = (Abrupt type_error, w)"
    by (simp add: set_store_commit resolve_setter_heir)
next
  show "invocations (notify_trace env s (registered w))
          = map (\<lambda>l. (l, listener_arg env s)) (registered w)"
    by (rule invocations_notify_trace)
qed

theorem set_commits_then_notifies_witness:
  "length (registered two_listeners) \<le> 2
   \<and> \<not> instance_of_function reading_env (Num (Fin 5))
   \<and> list_all (quiet reading_env (listener_arg reading_env (Num (Fin 5))))
        (registered two_listeners)
   \<and> set_store 2 reading_env (Num (Fin 5)) two_listeners =
       (Normal (Num (Fin 5)),
        \<lparr>state = Num (Fin 5), subscriptions = [Some 1, Some 2], heap = [],
         log = [Invoked 1 (Num (Fin 5)), Observed 1 (Num (Fin 5)),
                Invoked 2 (Num (Fin 5)), Observed 2 (Num (Fin 5))]\<rparr>)"
proof -
  have n: "length (registered two_listeners) \<le> 2"
    by (simp add: two_listeners_def registered_def subscribe_def createStore_def set_add_def)
  have q: "\<forall>l \<in> set (registered two_listeners).
             quiet reading_env (listener_arg reading_env (Num (Fin 5))) l"
    by (simp add: quiet_def reading_env_def)
  show ?thesis
    using n q set_commits_then_notifies [OF n, where v = "Num (Fin 5)" and env = reading_env]
    by (simp add: two_listeners_def registered_def subscribe_def createStore_def set_add_def
          notify_trace_def listener_arg_def reading_env_def)
qed

text \<open>
  Claim C1 as stated fails: the traversal reads the registry as it is when it reaches an
  entry. Listeners 1 and 2 are registered when \<open>set(5)\<close> begins to notify; listener 1
  calls the unsubscribe function of listener 2, and listener 2 is never called.
\<close>

theorem set_skips_listener_removed_during_notification:
  "registered two_listeners = [1, 2]
   \<and> set_store 2 unsubscribing_env (Num (Fin 5)) two_listeners =
       (Normal (Num (Fin 5)),
        \<lparr>state = Num (Fin 5), subscriptions = [Some 1, None], heap = [],
         log = [Invoked 1 (Num (Fin 5))]\<rparr>)"
  by (simp add: two_listeners_def registered_def subscribe_def unsubscribe_def createStore_def
        set_add_def set_delete_def set_store.simps for_each.simps resolve_setter_def
        unsubscribing_env_def listener_arg_def)

text \<open>
  The other two things a listener must not do for the amended claim to hold. A listener
  that throws ends the traversal, and \<open>set\<close> does not return: listener 2 is not called.
  A listener that calls \<open>set\<close> changes what the outer call passes to the listeners after
  it and what it returns: \<open>set(5)\<close> returns 6, and listener 2 is called twice with 6.

  And the test in \<open>set\<close> is \<open>instanceof Function\<close>: given the object made by
  \<open>Object.create(Function.prototype)\<close>, which is not callable, \<open>set\<close> does not store
  it; it throws a \<open>TypeError\<close>, the state stays 1 and listener 2 is not called.
\<close>

lemma set_throws_on_function_heir:
  "\<not> is_callable (Ref 0)
   \<and> registered one_object_listened = [2]
   \<and> state one_object_listened = Num (Fin 1)
   \<and> set_store 2 heir_env (Ref 0) one_object_listened
       = (Abrupt type_error, one_object_listened)"
  by (simp add: one_object_listened_def one_object_def subscribe_def createStore_def
        set_add_def registered_def set_store_commit resolve_setter_def heir_env_def)

lemma set_stops_at_throwing_listener:
  "set_store 2 throwing_env (Num (Fin 5)) two_listeners =
     (Abrupt (Str ''boom''),
      \<lparr>state = Num (Fin 5), subscriptions = [Some 1, Some 2], heap = [],
       log = [Invoked 1 (Num (Fin 5))]\<rparr>)"
  by (simp add: two_listeners_def subscribe_def createStore_def set_add_def set_store.simps
        for_each.simps resolve_setter_def throwing_env_def listener_arg_def)

lemma set_returns_state_written_by_listener:
  "set_store 4 writing_env (Num (Fin 5)) two_listeners =
     (Normal (Num (Fin 6)),
      \<lparr>state = Num (Fin 6), subscriptions = [Some 1, Some 2], heap = [],
       log = [Invoked 1 (Num (Fin 5)),
              Invoked 1 (Num (Fin 6)), Observed 1 (Num (Fin 6)),
              Invoked 2 (Num (Fin 6)), Observed 2 (Num (Fin 6)),
              Invoked 2 (Num (Fin 6)), Observed 2 (Num (Fin 6))]\<rparr>)"
  by (simp add: two_listeners_def subscribe_def createStore_def set_add_def set_store.simps
        for_each.simps resolve_setter_def writing_env_def listener_arg_def get_store_def
        Let_def)









text \<open>
  The state after the call is what the updater returned only as long as no listener
  writes the store: here listener 1 answers the new state by \<open>set(6)\<close>, and after
  \<open>set(() => (() => 42))\<close> the state is 6.
\<close>

lemma set_thunk_overwritten_by_listener:
  "set_store 4 writing_env (Fun 0) two_listeners =
     (Normal (Num (Fin 6)),
      \<lparr>state = Num (Fin 6), subscriptions = [Some 1, Some 2], heap = [],
       log = [Invoked 1 (Fun 1),
              Invoked 1 (Num (Fin 6)), Observed 1 (Num (Fin 6)),
              Invoked 2 (Num (Fin 6)), Observed 2 (Num (Fin 6)),
              Invoked 2 (Num (Fin 6)), Observed 2 (Num (Fin 6))]\<rparr>)"
  by (simp add: two_listeners_def subscribe_def createStore_def set_add_def set_store.simps
        for_each.simps resolve_setter_def writing_env_def listener_arg_def get_store_def
        call_def sample_callables_def Let_def)

section \<open>The equality gate\<close>

text \<open>
  Claim C5. One call of the closure that \<open>useEqual(selector, equals)\<close> returns: with
  \<open>next\<close> what \<open>selector(state)\<close> returns and \<open>t\<close> what \<open>equals(prev, next)\<close> returns,
  the call returns the remembered value itself and leaves the cell alone when \<open>t\<close> is
  truthy, and otherwise returns \<open>next\<close> and remembers it.
\<close>

theorem equality_gate_step:
  assumes "call env selector [st] w = (Normal next, w1)"
    and "call env equals [prev, next] w1 = (Normal t, w2)"
  shows "useEqual env selector equals st prev w =
           (if truthy t then (Normal prev, prev, w2) else (Normal next, next, w2))"
  using assms by (simp add: useEqual_def)

theorem equality_gate_step_witness:
  "call reading_env 3 [Num (Fin 1)] one_object
     = (Normal (Ref 1), one_object\<lparr>heap := heap one_object @ [Obj Ordinary [(''x'', Num (Fin 1))]]\<rparr>)
   \<and> call reading_env 4 [Ref 0, Ref 1]
        (one_object\<lparr>heap := heap one_object @ [Obj Ordinary [(''x'', Num (Fin 1))]]\<rparr>)
     = (Normal (Bool True), one_object\<lparr>heap := heap one_object @ [Obj Ordinary [(''x'', Num (Fin 1))]]\<rparr>)
   \<and> useEqual reading_env 3 4 (Num (Fin 1)) (Ref 0) one_object
     = (Normal (Ref 0), Ref 0, one_object\<lparr>heap := heap one_object @ [Obj Ordinary [(''x'', Num (Fin 1))]]\<rparr>)"
proof -
  let ?w1 = "one_object\<lparr>heap := heap one_object @ [Obj Ordinary [(''x'', Num (Fin 1))]]\<rparr>"
  have a: "call reading_env 3 [Num (Fin 1)] one_object = (Normal (Ref 1), ?w1)"
    by (simp add: call_def reading_env_def sample_callables_def one_object_def createStore_def
          first_arg_def)
  have b: "call reading_env 4 [Ref 0, Ref 1] ?w1 = (Normal (Bool True), ?w1)"
    by (simp add: call_def reading_env_def sample_callables_def one_object_def createStore_def
          first_arg_def second_arg_def shallowEqual_def object_is_def lookup_def
          object_keys_def has_own_property_def get_prop_def)
  show ?thesis using a b equality_gate_step [OF a b] by simp
qed

lemma gate_run_always_equal:
  assumes sel: "\<And>a h. \<exists>v h'. callables env selector [a] h = (Normal v, h')"
    and eq: "\<And>p v h. \<exists>t h'. callables env equals [p, v] h = (Normal t, h') \<and> truthy t"
  shows "fst (gate_run env selector equals sts prev w) = replicate (length sts) (Normal prev)
       \<and> fst (snd (gate_run env selector equals sts prev w)) = prev"
proof (induction sts arbitrary: w)
  case Nil
  then show ?case by simp
next
  case (Cons st sts)
  obtain v h1 where s: "callables env selector [st] (heap w) = (Normal v, h1)"
    using sel by blast
  obtain t h2 where e: "callables env equals [prev, v] h1 = (Normal t, h2)" and t: "truthy t"
    using eq by blast
  have "useEqual env selector equals st prev w = (Normal prev, prev, w\<lparr>heap := h2\<rparr>)"
    using s e t by (simp add: useEqual_def call_def)
  then show ?case using Cons.IH [of "w\<lparr>heap := h2\<rparr>"]
    by (cases "gate_run env selector equals sts prev (w\<lparr>heap := h2\<rparr>)") auto
qed

text \<open>
  Claim C6. With a comparator that returns a truthy value on all arguments, and a selector
  that returns, every call of the gate's closure returns what the cell held at first,
  however many states it is called on. The cell that \<open>useRef()\<close> creates holds
  \<open>undefined\<close>, and the first comparison is \<open>equals(undefined, next)\<close>.
\<close>

theorem always_equal_gate_is_constant:
  assumes "\<And>a h. \<exists>v h'. callables env selector [a] h = (Normal v, h')"
    and "\<And>p v h. \<exists>t h'. callables env equals [p, v] h = (Normal t, h') \<and> truthy t"
  shows "fst (gate_run env selector equals sts Undefined w)
           = replicate (length sts) (Normal Undefined)"
  using gate_run_always_equal [OF assms, of sts Undefined w] by simp

theorem always_equal_gate_is_constant_witness:
  "fst (gate_run reading_env 3 5 [Num (Fin 1), Num (Fin 2), Num (Fin 3)] Undefined
         (createStore Undefined []))
     = [Normal Undefined, Normal Undefined, Normal Undefined]"
proof -
  have a: "\<And>a h. \<exists>v h'. callables reading_env 3 [a] h = (Normal v, h')"
    by (simp add: reading_env_def sample_callables_def)
  have b: "\<And>p v h. \<exists>t h'. callables reading_env 5 [p, v] h = (Normal t, h') \<and> truthy t"
    by (simp add: reading_env_def sample_callables_def)
  show ?thesis
    using always_equal_gate_is_constant [OF a b, of "[Num (Fin 1), Num (Fin 2), Num (Fin 3)]" "createStore Undefined []"]
    by (simp add: numeral_3_eq_3)
qed

section \<open>Subscribing and unsubscribing\<close>

lemma unique_run:
  "unique_listeners w \<Longrightarrow> unique_listeners (snd (set_store n env v w))"
proof -
  have "(\<forall>f a l'. DoSubscribe l' \<in> set (listeners env f a) \<longrightarrow> True) \<longrightarrow> unique_listeners w
           \<longrightarrow> unique_listeners (snd (set_store n env v w))"
  proof (rule run_invariant(1) [where P = unique_listeners and ok = "\<lambda>l. True"])
    fix w w' :: world
    assume "unique_listeners w" "subscriptions w' = subscriptions w"
    then show "unique_listeners w'" by (simp add: unique_listeners_def registered_def)
  next
    fix w l'
    assume "unique_listeners w"
    then show "unique_listeners (subscribe l' w)"
      by (simp add: unique_listeners_def registered_subscribe)
  next
    fix w l'
    assume "unique_listeners w"
    then show "unique_listeners (unsubscribe l' w)"
      by (simp add: unique_listeners_def registered_unsubscribe distinct_removeAll)
  next
    fix w l' a
    assume "unique_listeners w"
    then show "unique_listeners (w\<lparr>log := log w @ [Invoked l' a]\<rparr>)"
      by (simp add: unique_listeners_def registered_def)
  qed
  then show "unique_listeners w \<Longrightarrow> unique_listeners (snd (set_store n env v w))" by simp
qed

lemma unregistered_run:
  assumes "\<forall>f a. DoSubscribe l \<notin> set (listeners env f a)"
    and "unregistered l calls w"
  shows "unregistered l calls (snd (set_store n env v w))"
proof -
  have "(\<forall>f a l'. DoSubscribe l' \<in> set (listeners env f a) \<longrightarrow> l' \<noteq> l)
          \<longrightarrow> unregistered l calls w
          \<longrightarrow> unregistered l calls (snd (set_store n env v w))"
  proof (rule run_invariant(1) [where P = "unregistered l calls" and ok = "\<lambda>k. k \<noteq> l"])
    fix w w' :: world
    assume "unregistered l calls w" "subscriptions w' = subscriptions w"
      "invocations (log w') = invocations (log w)"
    then show "unregistered l calls w'" by (simp add: unregistered_def registered_def)
  next
    fix w l'
    assume "unregistered l calls w" "l' \<noteq> l"
    moreover have "log (subscribe l' w) = log w" by (simp add: subscribe_def)
    ultimately show "unregistered l calls (subscribe l' w)"
      by (simp add: unregistered_def registered_subscribe)
  next
    fix w l'
    assume "unregistered l calls w"
    moreover have "log (unsubscribe l' w) = log w" by (simp add: unsubscribe_def)
    ultimately show "unregistered l calls (unsubscribe l' w)"
      by (simp add: unregistered_def registered_unsubscribe)
  next
    fix w l' a
    assume u: "unregistered l calls w" and m: "Some l' \<in> set (subscriptions w)"
    then have "l' \<noteq> l" by (auto simp: unregistered_def registered_def live_mem)
    then show "unregistered l calls (w\<lparr>log := log w @ [Invoked l' a]\<rparr>)"
      using u by (simp add: unregistered_def registered_def invocations_append of_listener_def)
  qed
  then show ?thesis using assms by blast
qed

lemma unregistered_set_many:
  assumes "\<forall>f a. DoSubscribe l \<notin> set (listeners env f a)"
  shows "unregistered l calls w \<Longrightarrow> unregistered l calls (set_many n env vs w)"
  by (induction vs arbitrary: w) (simp_all add: unregistered_run [OF assms])

text \<open>
  Claim C7. The function that \<open>subscribe(listener)\<close> returns removes that listener and
  no other from the registry, and leaves the state, the heap and the trace alone. Calling
  it again changes nothing, and so does unsubscribing a listener that is not registered;
  \<open>unsubscribe\<close> has no failing case. After it, as long as no listener's body subscribes
  the listener again, no \<open>set\<close> call in any sequence of \<open>set\<close> calls calls the listener,
  whatever the other listeners do.
\<close>

theorem unsubscribe_removes_listener:
  "registered (unsubscribe l w) = removeAll l (registered w)
   \<and> state (unsubscribe l w) = state w
   \<and> heap (unsubscribe l w) = heap w
   \<and> log (unsubscribe l w) = log w
   \<and> unsubscribe l (unsubscribe l w) = unsubscribe l w
   \<and> (l \<notin> set (registered w) \<longrightarrow> unsubscribe l w = w)
   \<and> ((\<forall>f a. DoSubscribe l \<notin> set (listeners env f a)) \<longrightarrow>
        l \<notin> set (registered (set_many n env vs (unsubscribe l w)))
        \<and> of_listener l (invocations (log (set_many n env vs (unsubscribe l w))))
            = of_listener l (invocations (log w)))"
proof (intro conjI impI)
  show "registered (unsubscribe l w) = removeAll l (registered w)"
    by (rule registered_unsubscribe)
  show "unsubscribe l (unsubscribe l w) = unsubscribe l w"
    by (simp add: unsubscribe_def set_delete_idem)
  show "unsubscribe l w = w" if "l \<notin> set (registered w)"
    using that by (simp add: unsubscribe_def registered_def live_mem set_delete_absent)
next
  assume a: "\<forall>f a. DoSubscribe l \<notin> set (listeners env f a)"
  have "log (unsubscribe l w) = log w" by (simp add: unsubscribe_def)
  then have "unregistered l (of_listener l (invocations (log w))) (unsubscribe l w)"
    by (simp add: unregistered_def registered_unsubscribe)
  from unregistered_set_many [OF a this, of n vs]
  show "l \<notin> set (registered (set_many n env vs (unsubscribe l w)))"
    and "of_listener l (invocations (log (set_many n env vs (unsubscribe l w))))
            = of_listener l (invocations (log w))"
    by (simp_all add: unregistered_def)
qed (simp_all add: unsubscribe_def)

theorem unsubscribe_removes_listener_witness:
  "(\<forall>f a. DoSubscribe 1 \<notin> set (listeners reading_env f a))
   \<and> registered (unsubscribe 1 two_listeners) = [2]
   \<and> unsubscribe 1 (unsubscribe 1 two_listeners) = unsubscribe 1 two_listeners
   \<and> 3 \<notin> set (registered two_listeners)
   \<and> unsubscribe 3 two_listeners = two_listeners
   \<and> invocations (log (set_many 2 reading_env [Num (Fin 5), Num (Fin 6)]
                          (unsubscribe 1 two_listeners)))
       = [(2, Num (Fin 5)), (2, Num (Fin 6))]
   \<and> of_listener 1 (invocations (log (set_many 2 reading_env [Num (Fin 5), Num (Fin 6)]
                          (unsubscribe 1 two_listeners)))) = []"
proof -
  have a: "\<forall>f a. DoSubscribe 1 \<notin> set (listeners reading_env f a)"
    by (simp add: reading_env_def)
  have reg: "registered two_listeners = [1, 2]"
    by (simp add: two_listeners_def registered_def subscribe_def createStore_def set_add_def)
  have l: "log two_listeners = []"
    by (simp add: two_listeners_def subscribe_def createStore_def)
  have run: "invocations (log (set_many 2 reading_env [Num (Fin 5), Num (Fin 6)]
                          (unsubscribe 1 two_listeners)))
       = [(2, Num (Fin 5)), (2, Num (Fin 6))]"
    by (simp add: two_listeners_def subscribe_def unsubscribe_def createStore_def
        set_add_def set_delete_def set_store.simps for_each.simps resolve_setter_def
        reading_env_def listener_arg_def get_store_def)
  show ?thesis
    using a run
      unsubscribe_removes_listener [of 1 two_listeners reading_env 2 "[Num (Fin 5), Num (Fin 6)]"]
      unsubscribe_removes_listener [of 3 two_listeners reading_env 2 "[]"]
    by (simp add: reg l of_listener_def)
qed

lemma count_list_distinct: "distinct xs \<Longrightarrow> count_list xs l = (if l \<in> set xs then 1 else 0)"
  by (induction xs) auto

lemma length_of_listener:
  "length (of_listener l (map (\<lambda>k. (k, a)) ls)) = count_list ls l"
  by (induction ls) (simp_all add: of_listener_def)

text \<open>
  Claim C10, as amended. A new store has no listener registered twice, and \<open>subscribe\<close>,
  unsubscribe, \<open>get\<close> and \<open>set\<close> (whatever the listeners do during it) keep it so.
  Subscribing the same listener twice is subscribing it once: the registry holds it once,
  and one unsubscribe leaves it unregistered. Unsubscribing twice is unsubscribing once.
  In a \<open>set\<close> call whose listeners are all quiet, no listener is called more than once;
  in one whose right-hand side does not give a new state, no listener is called at all.
\<close>

theorem registry_keeps_listeners_unique:
  "unique_listeners (createStore s0 h0)
   \<and> (unique_listeners w \<longrightarrow>
        unique_listeners (subscribe l w) \<and> unique_listeners (unsubscribe l w)
        \<and> unique_listeners (snd (get_store env x w))
        \<and> unique_listeners (snd (set_store n env v w)))
   \<and> subscribe l (subscribe l w) = subscribe l w
   \<and> (unique_listeners w \<longrightarrow> count_list (registered (subscribe l (subscribe l w))) l = 1)
   \<and> l \<notin> set (registered (unsubscribe l (subscribe l (subscribe l w))))
   \<and> unsubscribe l (unsubscribe l w) = unsubscribe l w
   \<and> (unique_listeners w \<and> resolve_setter env v w = (Normal s, w1)
        \<and> (\<forall>k \<in> set (registered w). quiet env (listener_arg env s) k)
        \<and> length (registered w) \<le> n \<longrightarrow>
        log (snd (set_store n env v w)) = log w @ notify_trace env s (registered w)
        \<and> length (of_listener l (invocations (notify_trace env s (registered w)))) \<le> 1)
   \<and> ((\<forall>r. fst (resolve_setter env v w) \<noteq> Normal r) \<longrightarrow>
        log (snd (set_store n env v w)) = log w)"
proof (intro conjI impI)
  assume "\<forall>r. fst (resolve_setter env v w) \<noteq> Normal r"
  then show "log (snd (set_store n env v w)) = log w"
    using resolve_setter_frame
            [of env v w "fst (resolve_setter env v w)" "snd (resolve_setter env v w)"]
    by (cases "resolve_setter env v w"; cases "fst (resolve_setter env v w)")
       (simp_all add: set_store_commit)
next
  show "unique_listeners (createStore s0 h0)"
    by (simp add: unique_listeners_def registered_def createStore_def)
  show "subscribe l (subscribe l w) = subscribe l w"
    by (simp add: subscribe_def set_add_idem)
  show "unsubscribe l (unsubscribe l w) = unsubscribe l w"
    by (simp add: unsubscribe_def set_delete_idem)
  show "l \<notin> set (registered (unsubscribe l (subscribe l (subscribe l w))))"
    by (simp add: registered_unsubscribe)
next
  assume u: "unique_listeners w"
  show "unique_listeners (subscribe l w)"
    using u by (simp add: unique_listeners_def registered_subscribe)
  show "unique_listeners (unsubscribe l w)"
    using u by (simp add: unique_listeners_def registered_unsubscribe distinct_removeAll)
  show "unique_listeners (snd (get_store env x w))"
    using u get_store_frame [of env x w "fst (get_store env x w)" "snd (get_store env x w)"]
    by (simp add: unique_listeners_def registered_def)
  show "unique_listeners (snd (set_store n env v w))"
    using u by (rule unique_run)
  show "count_list (registered (subscribe l (subscribe l w))) l = 1"
    using u by (simp add: registered_subscribe count_list_distinct unique_listeners_def)
next
  assume a: "unique_listeners w \<and> resolve_setter env v w = (Normal s, w1)
        \<and> (\<forall>k \<in> set (registered w). quiet env (listener_arg env s) k)
        \<and> length (registered w) \<le> n"
  then have "set_store n env v w =
          (Normal s, w1\<lparr>state := s, log := log w @ notify_trace env s (registered w)\<rparr>)"
    by (intro set_store_quiet) simp_all
  then show "log (snd (set_store n env v w)) = log w @ notify_trace env s (registered w)"
    by simp
  show "length (of_listener l (invocations (notify_trace env s (registered w)))) \<le> 1"
    using a by (simp add: invocations_notify_trace length_of_listener count_list_distinct
        unique_listeners_def)
qed

theorem registry_keeps_listeners_unique_witness:
  "unique_listeners two_listeners
   \<and> unique_listeners (subscribe 2 two_listeners)
   \<and> resolve_setter reading_env (Num (Fin 5)) (subscribe 2 two_listeners)
       = (Normal (Num (Fin 5)), subscribe 2 two_listeners)
   \<and> list_all (quiet reading_env (listener_arg reading_env (Num (Fin 5))))
        (registered (subscribe 2 two_listeners))
   \<and> length (registered (subscribe 2 two_listeners)) \<le> 2
   \<and> registered (subscribe 2 two_listeners) = [1, 2]
   \<and> invocations (log (snd (set_store 2 reading_env (Num (Fin 5)) (subscribe 2 two_listeners))))
       = [(1, Num (Fin 5)), (2, Num (Fin 5))]"
proof -
  have reg: "registered two_listeners = [1, 2]"
    by (simp add: two_listeners_def registered_def subscribe_def createStore_def set_add_def)
  have reg': "registered (subscribe 2 two_listeners) = [1, 2]"
    using reg by (simp add: registered_subscribe)
  have u: "unique_listeners two_listeners"
    by (simp add: unique_listeners_def reg)
  have u': "unique_listeners (subscribe 2 two_listeners)"
    using u registry_keeps_listeners_unique [where w = two_listeners and l = 2] by blast
  have r: "resolve_setter reading_env (Num (Fin 5)) (subscribe 2 two_listeners)
       = (Normal (Num (Fin 5)), subscribe 2 two_listeners)"
    by (simp add: resolve_setter_def)
  have q: "\<forall>k \<in> set (registered (subscribe 2 two_listeners)).
         quiet reading_env (listener_arg reading_env (Num (Fin 5))) k"
    by (simp add: quiet_def reading_env_def)
  have n: "length (registered (subscribe 2 two_listeners)) \<le> 2"
    using reg' by simp
  have l: "log (subscribe 2 two_listeners) = []"
    by (simp add: two_listeners_def subscribe_def createStore_def)
  have i: "invocations (notify_trace reading_env (Num (Fin 5)) [1, 2])
             = [(1, Num (Fin 5)), (2, Num (Fin 5))]"
    by (simp add: invocations_notify_trace listener_arg_def reading_env_def)
  have "log (snd (set_store 2 reading_env (Num (Fin 5)) (subscribe 2 two_listeners)))
          = log (subscribe 2 two_listeners)
              @ notify_trace reading_env (Num (Fin 5)) (registered (subscribe 2 two_listeners))"
    using u' r q n
      registry_keeps_listeners_unique [where w = "subscribe 2 two_listeners"
        and env = reading_env and v = "Num (Fin 5)" and s = "Num (Fin 5)"
        and ?w1.0 = "subscribe 2 two_listeners" and n = 2]
    by blast
  then show ?thesis using u u' r q n reg' l i by simp
qed

text \<open>
  Claim C10 as stated fails in its consequence. Listeners 1 and 2 are registered, each
  once. During \<open>set(5)\<close> listener 2 unsubscribes listener 1 and subscribes it again: the
  new entry lies ahead of the traversal, and listener 1 is called a second time in the
  same \<open>set\<close> call, while no listener is ever registered twice.
\<close>

theorem listener_called_twice_in_one_set:
  "unique_listeners two_listeners
   \<and> registered two_listeners = [1, 2]
   \<and> set_store 3 resubscribing_env (Num (Fin 5)) two_listeners =
       (Normal (Num (Fin 5)),
        \<lparr>state = Num (Fin 5), subscriptions = [None, Some 2, Some 1], heap = [],
         log = [Invoked 1 (Num (Fin 5)), Observed 1 (Num (Fin 5)),
                Invoked 2 (Num (Fin 5)),
                Invoked 1 (Num (Fin 5)), Observed 1 (Num (Fin 5))]\<rparr>)"
  by (simp add: unique_listeners_def two_listeners_def registered_def subscribe_def
        unsubscribe_def createStore_def set_add_def set_delete_def set_store.simps
        for_each.simps resolve_setter_def resubscribing_env_def listener_arg_def get_store_def
        Let_def)

section \<open>Shallow equality\<close>

lemma keys_loop_iff:
  "keys_loop ks pa pb \<longleftrightarrow>
     (\<forall>k \<in> set ks. has_own_property pb k \<and> object_is (get_prop pa k) (get_prop pb k))"
  by (induction ks) auto

lemma map_loop_iff:
  "map_loop ea eb \<longleftrightarrow> (\<forall>(k, v) \<in> set ea. object_is v (map_get eb k))"
  by (induction ea eb rule: map_loop.induct) (auto split: if_splits)

lemma same_keys_same_length:
  "distinct (map fst pa) \<Longrightarrow> distinct (map fst pb) \<Longrightarrow> set (map fst pa) = set (map fst pb)
     \<Longrightarrow> length pa = length pb"
  using distinct_card [of "map fst pa"] distinct_card [of "map fst pb"] by simp

text \<open>
  Claim C8. \<open>shallowEqual\<close> is true of two ordinary objects with the same keys whose
  values are pairwise the same under \<open>Object.is\<close>; false of two ordinary objects that
  hold different references under a key of the first, whatever those references point to;
  true of two \<open>Map\<close>s of equal size when each value of the first is the same, under
  \<open>Object.is\<close>, as what the second holds under the same key. The comparison of values
  is \<open>Object.is\<close>, not \<open>===\<close>: \<open>NaN\<close> is the same as \<open>NaN\<close>, and \<open>+0\<close> is not
  the same as \<open>-0\<close>.
\<close>

theorem shallowEqual_one_level:
  "(lookup h p = Some (Obj Ordinary pa) \<and> lookup h q = Some (Obj Ordinary pb)
      \<and> distinct (object_keys pa) \<and> distinct (object_keys pb)
      \<and> set (object_keys pa) = set (object_keys pb)
      \<and> (\<forall>k \<in> set (object_keys pa). object_is (get_prop pa k) (get_prop pb k))
      \<longrightarrow> shallowEqual h (Ref p) (Ref q) = Some True)
   \<and> (lookup h p = Some (Obj Ordinary pa) \<and> lookup h q = Some (Obj Ordinary pb)
      \<and> k \<in> set (object_keys pa) \<and> get_prop pa k = Ref x \<and> get_prop pb k = Ref y \<and> x \<noteq> y
      \<longrightarrow> shallowEqual h (Ref p) (Ref q) = Some False)
   \<and> (lookup h p = Some (Obj (MapData ea) pa) \<and> lookup h q = Some (Obj (MapData eb) pb)
      \<and> length ea = length eb
      \<and> (\<forall>(key, value) \<in> set ea. object_is value (map_get eb key))
      \<longrightarrow> shallowEqual h (Ref p) (Ref q) = Some True)
   \<and> shallowEqual h (Num NaN) (Num NaN) = Some True
   \<and> \<not> strict_equals (Num NaN) (Num NaN)
   \<and> shallowEqual h (Num (Fin 0)) (Num NegZero) = Some False
   \<and> strict_equals (Num (Fin 0)) (Num NegZero)"
proof (intro conjI impI)
  assume a: "lookup h p = Some (Obj Ordinary pa) \<and> lookup h q = Some (Obj Ordinary pb)
      \<and> distinct (object_keys pa) \<and> distinct (object_keys pb)
      \<and> set (object_keys pa) = set (object_keys pb)
      \<and> (\<forall>k \<in> set (object_keys pa). object_is (get_prop pa k) (get_prop pb k))"
  have d: "distinct (map fst pa)" "distinct (map fst pb)" "set (map fst pa) = set (map fst pb)"
    using a by (simp_all add: object_keys_def)
  have len: "length (object_keys pa) = length (object_keys pb)"
    using same_keys_same_length [OF d] by (simp add: object_keys_def)
  have own: "\<forall>k \<in> set (object_keys pa). has_own_property pb k"
    using d(3) by (simp add: has_own_property_def object_keys_def)
  have "keys_loop (object_keys pa) pa pb"
    using a own unfolding keys_loop_iff by blast
  moreover have "lookup h p = Some (Obj Ordinary pa)" "lookup h q = Some (Obj Ordinary pb)"
    using a by simp_all
  ultimately show "shallowEqual h (Ref p) (Ref q) = Some True"
    using len by (simp add: shallowEqual_def)
next
  assume a: "lookup h p = Some (Obj Ordinary pa) \<and> lookup h q = Some (Obj Ordinary pb)
      \<and> k \<in> set (object_keys pa) \<and> get_prop pa k = Ref x \<and> get_prop pb k = Ref y \<and> x \<noteq> y"
  then have "p \<noteq> q" by auto
  moreover have "\<not> object_is (get_prop pa k) (get_prop pb k)"
    using a by (simp add: object_is_def)
  then have "\<not> keys_loop (object_keys pa) pa pb"
    using a unfolding keys_loop_iff by blast
  ultimately show "shallowEqual h (Ref p) (Ref q) = Some False"
    using a by (simp add: shallowEqual_def object_is_def Let_def)
next
  assume a: "lookup h p = Some (Obj (MapData ea) pa) \<and> lookup h q = Some (Obj (MapData eb) pb)
      \<and> length ea = length eb
      \<and> (\<forall>(key, value) \<in> set ea. object_is value (map_get eb key))"
  then have "map_loop ea eb" by (simp add: map_loop_iff)
  then show "shallowEqual h (Ref p) (Ref q) = Some True"
    using a by (simp add: shallowEqual_def)
qed (simp_all add: shallowEqual_def object_is_def)

theorem shallowEqual_one_level_witness:
  "shallowEqual sample_heap (Ref 0) (Ref 1) = Some True
   \<and> shallowEqual sample_heap (Ref 2) (Ref 3) = Some False
   \<and> shallowEqual sample_heap (Ref 6) (Ref 7) = Some True
   \<and> shallowEqual sample_heap (Ref 8) (Ref 9) = Some True"
proof -
  let ?ab = "[(''a'', Num (Fin 1)), (''b'', Num (Fin 2))]"
  have l0: "lookup sample_heap 0 = Some (Obj Ordinary ?ab)"
    and l1: "lookup sample_heap 1 = Some (Obj Ordinary ?ab)"
    and l2: "lookup sample_heap 2 = Some (Obj Ordinary [(''a'', Num (Fin 1)), (''b'', Ref 4)])"
    and l3: "lookup sample_heap 3 = Some (Obj Ordinary [(''a'', Num (Fin 1)), (''b'', Ref 5)])"
    and l6: "lookup sample_heap 6 = Some (Obj (MapData [(Str ''x'', Num (Fin 1))]) [])"
    and l7: "lookup sample_heap 7 = Some (Obj (MapData [(Str ''x'', Num (Fin 1))]) [])"
    and l8: "lookup sample_heap 8 = Some (Obj Ordinary [(''a'', Num NaN)])"
    and l9: "lookup sample_heap 9 = Some (Obj Ordinary [(''a'', Num NaN)])"
    by (simp_all add: lookup_def sample_heap_def)
  have a: "shallowEqual sample_heap (Ref 0) (Ref 1) = Some True"
    using l0 l1 shallowEqual_one_level [where h = sample_heap and p = 0 and q = 1
        and pa = ?ab and pb = ?ab]
    by (simp add: object_keys_def object_is_def)
  have b: "shallowEqual sample_heap (Ref 2) (Ref 3) = Some False"
    using l2 l3 shallowEqual_one_level [where h = sample_heap and p = 2 and q = 3
        and pa = "[(''a'', Num (Fin 1)), (''b'', Ref 4)]"
        and pb = "[(''a'', Num (Fin 1)), (''b'', Ref 5)]" and k = "''b''" and x = 4 and y = 5]
    by (simp add: object_keys_def get_prop_def)
  have c: "shallowEqual sample_heap (Ref 6) (Ref 7) = Some True"
    using l6 l7 shallowEqual_one_level [where h = sample_heap and p = 6 and q = 7
        and ea = "[(Str ''x'', Num (Fin 1))]" and eb = "[(Str ''x'', Num (Fin 1))]"
        and pa = "[]" and pb = "[]"]
    by (simp add: object_is_def)
  have d: "shallowEqual sample_heap (Ref 8) (Ref 9) = Some True"
    using l8 l9 shallowEqual_one_level [where h = sample_heap and p = 8 and q = 9
        and pa = "[(''a'', Num NaN)]" and pb = "[(''a'', Num NaN)]"]
    by (simp add: object_keys_def object_is_def)
  show ?thesis using a b c d by simp
qed

end
